theory Spec2Isabelle
  imports Complex_Main "HOL-Library.Log_Nat"
begin

section \<open>JavaScript strings\<close>

text \<open>
  A JavaScript string is modelled as a \<open>string\<close>: a list of 8-bit characters, read as
  the code points U+0000 to U+00FF. The library functions below are the ECMAScript ones
  restricted to that range.
\<close>

definition is_digit :: "char \<Rightarrow> bool" where
  \<comment> \<open>the regular expression class \<open>\d\<close>\<close>
  "is_digit c \<longleftrightarrow> c \<in> set ''0123456789''"

definition is_alpha :: "char \<Rightarrow> bool" where
  \<comment> \<open>the regular expression class \<open>[a-zA-Z]\<close>\<close>
  "is_alpha c \<longleftrightarrow>
     c \<in> set ''abcdefghijklmnopqrstuvwxyzABCDEFGHIJKLMNOPQRSTUVWXYZ''"

definition is_space :: "char \<Rightarrow> bool" where
  \<comment> \<open>the class \<open>\s\<close>, also what \<open>trim\<close> strips: TAB, LF, VT, FF, CR, SP and NBSP\<close>
  "is_space c \<longleftrightarrow> (of_char c :: nat) \<in> {9, 10, 11, 12, 13, 32, 160}"

definition lower_char :: "char \<Rightarrow> char" where
  "lower_char c =
     (let n = (of_char c :: nat)
      in if (65 \<le> n \<and> n \<le> 90) \<or> (192 \<le> n \<and> n \<le> 222 \<and> n \<noteq> 215)
         then char_of (n + 32) else c)"

definition toLowerCase :: "string \<Rightarrow> string" where
  "toLowerCase s = map lower_char s"

definition trim :: "string \<Rightarrow> string" where
  "trim s = rev (dropWhile is_space (rev (dropWhile is_space s)))"

fun starts_with :: "string \<Rightarrow> string \<Rightarrow> bool" where
  "starts_with s [] = True"
| "starts_with [] (c # t) = False"
| "starts_with (d # s) (c # t) = (d = c \<and> starts_with s t)"

fun includes_js :: "string \<Rightarrow> string \<Rightarrow> bool" where
  \<comment> \<open>\<open>s.includes(t)\<close>\<close>
  "includes_js [] t = starts_with [] t"
| "includes_js (d # s) t = (starts_with (d # s) t \<or> includes_js s t)"

section \<open>Regular expressions\<close>

text \<open>
  The four patterns of the source are sequences of quantified character classes.
  Matching is the backtracking search of \<open>String.prototype.match\<close>: the leftmost start
  position wins, and at a position every quantifier is greedy, giving characters back
  only when the rest of the pattern fails. A match is returned as the list of the
  pieces consumed by the items of the pattern, in order.
\<close>

datatype atom = Digit | Space | Alpha | Lit char

fun accepts :: "atom \<Rightarrow> char \<Rightarrow> bool" where
  "accepts Digit c = is_digit c"
| "accepts Space c = is_space c"
| "accepts Alpha c = is_alpha c"
| "accepts (Lit d) c = (c = d)"

datatype item = One atom | Plus atom | Star atom | Opt atom

fun least :: "item \<Rightarrow> nat" where
  "least (One a) = 1"
| "least (Plus a) = 1"
| "least (Star a) = 0"
| "least (Opt a) = 0"

fun most :: "item \<Rightarrow> string \<Rightarrow> nat" where
  "most (One a) s = min 1 (length (takeWhile (accepts a) s))"
| "most (Plus a) s = length (takeWhile (accepts a) s)"
| "most (Star a) s = length (takeWhile (accepts a) s)"
| "most (Opt a) s = min 1 (length (takeWhile (accepts a) s))"

fun greedy :: "(nat \<Rightarrow> 'a option) \<Rightarrow> nat \<Rightarrow> nat \<Rightarrow> 'a option" where
  \<comment> \<open>the first of the lengths \<open>hi, hi - 1, ..., lo\<close> at which \<open>f\<close> succeeds\<close>
  "greedy f lo 0 = (if lo = 0 then f 0 else None)"
| "greedy f lo (Suc k) =
     (if Suc k < lo then None
      else case f (Suc k) of Some r \<Rightarrow> Some r | None \<Rightarrow> greedy f lo k)"

fun match_here :: "item list \<Rightarrow> string \<Rightarrow> string list option" where
  "match_here [] s = Some []"
| "match_here (i # is) s =
     greedy (\<lambda>k. map_option (\<lambda>ps. take k s # ps) (match_here is (drop k s)))
       (least i) (most i s)"

fun match_js :: "item list \<Rightarrow> string \<Rightarrow> string list option" where
  \<comment> \<open>\<open>s.match(re)\<close> for a pattern without the global flag; \<open>None\<close> is \<open>null\<close>\<close>
  "match_js re [] = match_here re []"
| "match_js re (c # s) =
     (case match_here re (c # s) of Some ps \<Rightarrow> Some ps | None \<Rightarrow> match_js re s)"

definition mixed_re :: "item list" where
  \<comment> \<open>\<open>/(\d+)\s+(\d+)\/(\d+)/\<close>: the groups are the pieces 0, 2 and 4\<close>
  "mixed_re = [Plus Digit, Plus Space, Plus Digit, One (Lit CHR ''/''), Plus Digit]"

definition fraction_re :: "item list" where
  \<comment> \<open>\<open>/(\d+)\/(\d+)/\<close>: the groups are the pieces 0 and 2\<close>
  "fraction_re = [Plus Digit, One (Lit CHR ''/''), Plus Digit]"

definition number_re :: "item list" where
  \<comment> \<open>\<open>/(\d+\.?\d*)/\<close>: the group is the whole match\<close>
  "number_re = [Plus Digit, Opt (Lit CHR ''.''), Star Digit]"

definition unit_re :: "item list" where
  \<comment> \<open>\<open>/[a-zA-Z]+/\<close>\<close>
  "unit_re = [Plus Alpha]"

section \<open>JavaScript numbers\<close>

text \<open>
  A Number is an IEEE 754 binary64 value. A finite one is modelled by the rational it
  denotes, and every arithmetic operation rounds its exact result to the nearest
  double, ties to even (\<open>rd\<close>); so do decimal literals and the conversions of
  \<open>parseInt\<close> and \<open>parseFloat\<close>. The two zeros are identified: they differ only as a
  divisor, and the divisors of the code are parsed denominators, which are never
  \<open>-0\<close>, and the serving count handed in by the caller.
\<close>

datatype jsnum = Num rat | PosInf | NegInf | NaN

definition pow2 :: "int \<Rightarrow> rat" where
  "pow2 e = (if 0 \<le> e then 2 ^ nat e else 1 / 2 ^ nat (- e))"

definition binade :: "rat \<Rightarrow> int" where
  \<comment> \<open>for \<open>0 < x\<close>: the \<open>e\<close> with \<open>2 ^ e \<le> x < 2 ^ (e + 1)\<close>\<close>
  "binade x = (if 1 \<le> x then bitlen \<lfloor>x\<rfloor> - 1 else - bitlen (\<lceil>1 / x\<rceil> - 1))"

definition quantum :: "rat \<Rightarrow> rat" where
  \<comment> \<open>the spacing of the doubles around \<open>x\<close>: 53 significant bits, subnormal below \<open>2 ^ -1022\<close>\<close>
  "quantum x = pow2 (max (binade x) (- 1022) - 52)"

definition round_even :: "rat \<Rightarrow> int" where
  "round_even m =
     (let f = \<lfloor>m\<rfloor>; r = m - of_int f
      in if r < 1 / 2 then f else if 1 / 2 < r then f + 1
         else if even f then f else f + 1)"

definition rd :: "rat \<Rightarrow> jsnum" where
  "rd x =
     (if x = 0 then Num 0
      else let q = quantum \<bar>x\<bar>; y = of_int (round_even (\<bar>x\<bar> / q)) * q
           in if 2 ^ 1024 \<le> y then (if 0 < x then PosInf else NegInf)
              else Num (sgn x * y))"

definition is_double :: "rat \<Rightarrow> bool" where
  "is_double x \<longleftrightarrow> rd x = Num x"

fun jneg :: "jsnum \<Rightarrow> jsnum" where
  "jneg (Num a) = Num (- a)"
| "jneg PosInf = NegInf"
| "jneg NegInf = PosInf"
| "jneg NaN = NaN"

fun jadd :: "jsnum \<Rightarrow> jsnum \<Rightarrow> jsnum" where
  "jadd (Num a) (Num b) = rd (a + b)"
| "jadd NaN y = NaN"
| "jadd x NaN = NaN"
| "jadd PosInf NegInf = NaN"
| "jadd NegInf PosInf = NaN"
| "jadd PosInf y = PosInf"
| "jadd NegInf y = NegInf"
| "jadd x PosInf = PosInf"
| "jadd x NegInf = NegInf"

definition jsub :: "jsnum \<Rightarrow> jsnum \<Rightarrow> jsnum" where
  "jsub x y = jadd x (jneg y)"

fun jsign :: "jsnum \<Rightarrow> rat" where
  "jsign (Num a) = sgn a"
| "jsign PosInf = 1"
| "jsign NegInf = - 1"
| "jsign NaN = 0"

definition inf_of :: "rat \<Rightarrow> jsnum" where
  "inf_of s = (if 0 < s then PosInf else if s < 0 then NegInf else NaN)"

fun jmul :: "jsnum \<Rightarrow> jsnum \<Rightarrow> jsnum" where
  "jmul (Num a) (Num b) = rd (a * b)"
| "jmul NaN y = NaN"
| "jmul x NaN = NaN"
| "jmul x y = inf_of (jsign x * jsign y)"

fun jdiv :: "jsnum \<Rightarrow> jsnum \<Rightarrow> jsnum" where
  "jdiv (Num a) (Num b) = (if b = 0 then inf_of a else rd (a / b))"
| "jdiv NaN y = NaN"
| "jdiv x NaN = NaN"
| "jdiv (Num a) y = Num 0"
| "jdiv x (Num b) = (if b < 0 then jneg x else x)"
| "jdiv x y = NaN"

fun jabs :: "jsnum \<Rightarrow> jsnum" where
  \<comment> \<open>\<open>Math.abs\<close>\<close>
  "jabs (Num a) = Num \<bar>a\<bar>"
| "jabs PosInf = PosInf"
| "jabs NegInf = PosInf"
| "jabs NaN = NaN"

fun jfloor :: "jsnum \<Rightarrow> jsnum" where
  \<comment> \<open>\<open>Math.floor\<close>\<close>
  "jfloor (Num a) = Num (of_int \<lfloor>a\<rfloor>)"
| "jfloor x = x"

fun jlt :: "jsnum \<Rightarrow> jsnum \<Rightarrow> bool" where
  \<comment> \<open>\<open>x < y\<close>: false as soon as one side is NaN\<close>
  "jlt (Num a) (Num b) = (a < b)"
| "jlt NaN y = False"
| "jlt x NaN = False"
| "jlt x PosInf = (x \<noteq> PosInf)"
| "jlt NegInf y = (y \<noteq> NegInf)"
| "jlt x y = False"

definition jeq :: "jsnum \<Rightarrow> jsnum \<Rightarrow> bool" where
  \<comment> \<open>\<open>x === y\<close> on numbers: NaN is not equal to itself\<close>
  "jeq x y \<longleftrightarrow> x = y \<and> x \<noteq> NaN"

subsection \<open>Numbers and strings\<close>

definition digit_val :: "char \<Rightarrow> nat" where
  "digit_val c = of_char c - 48"

definition dec :: "string \<Rightarrow> nat" where
  \<comment> \<open>the value of a string of decimal digits\<close>
  "dec s = foldl (\<lambda>v c. 10 * v + digit_val c) 0 s"

definition parseInt :: "string \<Rightarrow> jsnum" where
  \<comment> \<open>\<open>parseInt(s, 10)\<close> on an unsigned string: the digits at its front, NaN when
      there is none\<close>
  "parseInt s =
     (let ds = takeWhile is_digit (dropWhile is_space s)
      in if ds = [] then NaN else rd (of_nat (dec ds)))"

definition parseFloat :: "string \<Rightarrow> jsnum" where
  \<comment> \<open>\<open>parseFloat(s)\<close> on the strings \<open>number_re\<close> captures: digits, then optionally
      a point and digits\<close>
  "parseFloat s =
     (let ip = takeWhile is_digit s; rest = dropWhile is_digit s;
          fp = (case rest of [] \<Rightarrow> [] | c # t \<Rightarrow>
                  if c = CHR ''.'' then takeWhile is_digit t else [])
      in if ip = [] then NaN
         else rd (of_nat (dec ip) + of_nat (dec fp) / 10 ^ length fp))"

definition digit_char :: "nat \<Rightarrow> char" where
  "digit_char d = ''0123456789'' ! d"

fun decimal_digits :: "nat \<Rightarrow> string" where
  "decimal_digits n =
     (if n < 10 then [digit_char n]
      else decimal_digits (n div 10) @ [digit_char (n mod 10)])"

declare decimal_digits.simps [simp del]

definition engine_digits :: "rat \<Rightarrow> string" where
  \<comment> \<open>what \<open>Number.prototype.toString\<close> prints for a finite value that is not an
      integer below \<open>2 ^ 53\<close>: the shortest digits that read back as the same double.
      ECMAScript leaves their last digit to the engine, so the model fixes the function
      without saying which one it is. \<open>toFraction\<close> prints whole numbers only, and
      reaches this case from \<open>2 ^ 53\<close> on.\<close>
  "engine_digits = (SOME f. True)"

definition toString :: "jsnum \<Rightarrow> string" where
  \<comment> \<open>\<open>Number.prototype.toString\<close>: an integer of magnitude below \<open>2 ^ 53\<close> prints
      as its decimal digits\<close>
  "toString x =
     (case x of
        NaN \<Rightarrow> ''NaN''
      | PosInf \<Rightarrow> ''Infinity''
      | NegInf \<Rightarrow> ''-Infinity''
      | Num r \<Rightarrow>
          if of_int \<lfloor>r\<rfloor> = r \<and> \<bar>r\<bar> < 2 ^ 53
          then (if r < 0 then ''-'' else '''') @ decimal_digits (nat \<bar>\<lfloor>r\<rfloor>\<bar>)
          else engine_digits r)"

section \<open>The serving scaler\<close>

record ingredient =
  quantity :: string
  name :: string
  "notes" :: "string option"

record nutritionInfo =
  protein :: jsnum
  fiber :: jsnum
  calories :: jsnum

datatype platform = Instagram | TikTok | YouTube | Web

record recipeSource =
  platform :: platform
  author :: string
  url :: string

record recipe =
  name :: string
  servings :: jsnum
  prepTime :: "jsnum option"
  cookTime :: "jsnum option"
  ingredients :: "ingredient list"
  instructions :: "string list"
  nutrition :: "nutritionInfo option"
  source :: recipeSource

definition nonScalableTerms :: "string list" where
  "nonScalableTerms = [''to taste'', ''pinch'', ''dash'', ''handful'', ''splash'']"

definition parseQuantity :: "string \<Rightarrow> jsnum option" where
  \<comment> \<open>\<open>None\<close> is the source's \<open>null\<close>\<close>
  "parseQuantity qty =
     (let trimmed = toLowerCase (trim qty)
      in if list_ex (\<lambda>term. includes_js trimmed term) nonScalableTerms then None
         else case match_js mixed_re trimmed of
           Some mixedMatch \<Rightarrow>
             (let whole = parseInt (mixedMatch ! 0);
                  numerator = parseInt (mixedMatch ! 2);
                  denominator = parseInt (mixedMatch ! 4)
              in Some (jadd whole (jdiv numerator denominator)))
         | None \<Rightarrow>
         (case match_js fraction_re trimmed of
           Some fractionMatch \<Rightarrow>
             (let numerator = parseInt (fractionMatch ! 0);
                  denominator = parseInt (fractionMatch ! 2)
              in Some (jdiv numerator denominator))
         | None \<Rightarrow>
         (case match_js number_re trimmed of
           Some numberMatch \<Rightarrow> Some (parseFloat (concat numberMatch))
         | None \<Rightarrow> None)))"

record candidate =
  "value" :: jsnum
  str :: string

definition lit :: "rat \<Rightarrow> jsnum" where
  \<comment> \<open>a decimal literal of the source denotes the double nearest to it\<close>
  "lit x = rd x"

definition fractions :: "candidate list" where
  "fractions =
     [\<lparr>value = lit 0, str = ''''\<rparr>,
      \<lparr>value = lit (25 / 100), str = ''1/4''\<rparr>,
      \<lparr>value = lit (33 / 100), str = ''1/3''\<rparr>,
      \<lparr>value = lit (5 / 10), str = ''1/2''\<rparr>,
      \<lparr>value = lit (67 / 100), str = ''2/3''\<rparr>,
      \<lparr>value = lit (75 / 100), str = ''3/4''\<rparr>]"

definition closer :: "jsnum \<Rightarrow> candidate \<Rightarrow> jsnum \<times> candidate \<Rightarrow> jsnum \<times> candidate" where
  \<comment> \<open>the body of the loop over \<open>fractions\<close>, on the pair \<open>(minDiff, closest)\<close>\<close>
  "closer fraction fr st =
     (let diff = jabs (jsub fraction (value fr))
      in if jlt diff (fst st) then (diff, fr) else st)"

definition toFraction :: "jsnum \<Rightarrow> string" where
  "toFraction decimal =
     (let whole = jfloor decimal;
          fraction = jsub decimal whole;
          closest0 = fractions ! 0;
          minDiff0 = jabs (jsub fraction (value closest0));
          (minDiff, closest) = fold (closer fraction) fractions (minDiff0, closest0)
      in if jlt minDiff (lit (5 / 100)) then
           (if jeq (value closest) (lit 0) then toString whole
            else toString (jadd whole (lit 1)))
         else if jeq whole (lit 0) then str closest
         else if str closest = '''' then toString whole
         else toString whole @ '' '' @ str closest)"

definition scaleIngredient :: "ingredient \<Rightarrow> jsnum \<Rightarrow> jsnum \<Rightarrow> ingredient" where
  "scaleIngredient ingredient fromServings toServings =
     (case parseQuantity (quantity ingredient) of
        None \<Rightarrow> ingredient
      | Some parsedQuantity \<Rightarrow>
          (let scaleFactor = jdiv toServings fromServings;
               scaledQuantity = jmul parsedQuantity scaleFactor;
               unit = (case match_js unit_re (quantity ingredient) of
                         Some unitMatch \<Rightarrow> concat unitMatch | None \<Rightarrow> '''');
               quantityStr = toFraction scaledQuantity;
               newQuantity = (if unit \<noteq> '''' then quantityStr @ '' '' @ unit else quantityStr)
           in ingredient\<lparr>quantity := newQuantity\<rparr>))"

definition scaleRecipeServings :: "recipe \<Rightarrow> jsnum \<Rightarrow> recipe" where
  "scaleRecipeServings recipe newServings =
     (let scaledIngredients =
            map (\<lambda>ingredient. scaleIngredient ingredient (servings recipe) newServings)
              (ingredients recipe)
      in recipe\<lparr>servings := newServings, ingredients := scaledIngredients\<rparr>)"

section \<open>Properties used in the statements\<close>

fun not_negative :: "jsnum \<Rightarrow> bool" where
  \<comment> \<open>NaN, or a number that is at least 0\<close>
  "not_negative (Num r) = (0 \<le> r)"
| "not_negative PosInf = True"
| "not_negative NegInf = False"
| "not_negative NaN = True"

definition vague :: "string \<Rightarrow> bool" where
  \<comment> \<open>the unit word \<open>u\<close>, after a space, holds one of the non-scalable terms\<close>
  "vague u \<longleftrightarrow> list_ex (\<lambda>term. includes_js (toLowerCase (CHR '' '' # u)) term) nonScalableTerms"

section \<open>Evaluating the model on concrete inputs\<close>

lemma bitlen_numeral [simp]:
  "bitlen 1 = 1"
  "bitlen (numeral Num.One) = 1"
  "bitlen (numeral (Num.Bit0 n)) = bitlen (numeral n) + 1"
  "bitlen (numeral (Num.Bit1 n)) = bitlen (numeral n) + 1"
  by (subst compute_bitlen, simp)+

lemma floor_rat_numeral [simp]:
  "\<lfloor>(numeral a :: rat) / numeral b\<rfloor> = numeral a div numeral b"
  "\<lfloor>(1 :: rat) / numeral b\<rfloor> = 1 div numeral b"
  using floor_divide_of_int_eq [of "numeral a" "numeral b", where ?'a = rat]
    floor_divide_of_int_eq [of 1 "numeral b", where ?'a = rat]
  by simp_all

lemma ceiling_rat_numeral [simp]:
  "\<lceil>(numeral a :: rat) / numeral b\<rceil> = - (- numeral a div numeral b)"
  "\<lceil>(1 :: rat) / numeral b\<rceil> = - (- 1 div numeral b)"
  using floor_divide_of_int_eq [of "- numeral a" "numeral b", where ?'a = rat]
    floor_divide_of_int_eq [of "- 1" "numeral b", where ?'a = rat]
  by (simp_all add: ceiling_def)

lemmas rd_eval = rd_def quantum_def binade_def pow2_def round_even_def Let_def

lemmas str_eval = trim_def toLowerCase_def lower_char_def is_space_def is_digit_def
  is_alpha_def nonScalableTerms_def mixed_re_def fraction_re_def number_re_def unit_re_def

lemmas num_eval = parseInt_def parseFloat_def dec_def digit_val_def lit_def jsub_def
  jeq_def inf_of_def rd_eval

lemmas out_eval = toString_def decimal_digits.simps digit_char_def

lemma fractions_eval:
  "fractions =
     [\<lparr>value = Num 0, str = ''''\<rparr>,
      \<lparr>value = Num (1 / 4), str = ''1/4''\<rparr>,
      \<lparr>value = Num (5944751508129055 / 18014398509481984), str = ''1/3''\<rparr>,
      \<lparr>value = Num (1 / 2), str = ''1/2''\<rparr>,
      \<lparr>value = Num (6034823500676465 / 9007199254740992), str = ''2/3''\<rparr>,
      \<lparr>value = Num (3 / 4), str = ''3/4''\<rparr>]"
  by (simp add: fractions_def lit_def rd_eval)

lemmas frac_eval = fractions_eval closer_def

section \<open>The renderer on the documented examples\<close>

text \<open>
  C1. The claim: \<open>toFraction(0.25) = "1/4"\<close>, \<open>toFraction(0.5) = "1/2"\<close>,
  \<open>toFraction(0.75) = "3/4"\<close> and \<open>toFraction(1.25) = "1 1/4"\<close>. The code does not do
  that. A fractional part equal to a candidate is at distance 0 from it, which is below
  the tolerance, and the tolerance branch prints a whole number: \<open>whole + 1\<close> for every
  candidate but 0. The four inputs render as "1", "1", "1" and "2".
\<close>

theorem toFraction_exact_fractions:
  "toFraction (lit (25 / 100)) = ''1'' \<and>
   toFraction (lit (5 / 10)) = ''1'' \<and>
   toFraction (lit (75 / 100)) = ''1'' \<and>
   toFraction (lit (125 / 100)) = ''2''"
proof -
  have a: "toFraction (lit (25 / 100)) = ''1''"
    unfolding toFraction_def Let_def by (simp add: frac_eval num_eval out_eval)
  have b: "toFraction (lit (5 / 10)) = ''1''"
    unfolding toFraction_def Let_def by (simp add: frac_eval num_eval out_eval)
  have c: "toFraction (lit (75 / 100)) = ''1''"
    unfolding toFraction_def Let_def by (simp add: frac_eval num_eval out_eval)
  have d: "toFraction (lit (125 / 100)) = ''2''"
    unfolding toFraction_def Let_def by (simp add: frac_eval num_eval out_eval)
  from a b c d show ?thesis by blast
qed

lemma toFraction_within_tolerance:
  assumes "fold (closer (jsub d (jfloor d))) fractions
      (jabs (jsub (jsub d (jfloor d)) (value (fractions ! 0))), fractions ! 0)
      = (minDiff, closest)"
    and "jlt minDiff (lit (5 / 100))"
  shows "toFraction d =
    (if jeq (value closest) (lit 0) then toString (jfloor d)
     else toString (jadd (jfloor d) (lit 1)))"
  using assms by (simp add: toFraction_def Let_def)

text \<open>
  C2. The claim: when the distance to the nearest candidate is below 0.05 the renderer
  prints \<open>w\<close> for the candidate 0 and \<open>w + 1\<close> otherwise, so that
  \<open>toFraction(2.96) = "3"\<close> and \<open>toFraction(0.98) = "1"\<close>. The rule is the code's
  (\<open>toFraction_within_tolerance\<close>), but the two examples do not follow from it: 1 is
  not among the candidates, the nearest one to 0.96 and to 0.98 is 0.75, at a distance
  above the tolerance, and the code prints "2 3/4" and "3/4".
\<close>

theorem toFraction_near_whole:
  "toFraction (lit (296 / 100)) = ''2 3/4'' \<and> toFraction (lit (98 / 100)) = ''3/4''"
proof -
  have a: "toFraction (lit (296 / 100)) = ''2 3/4''"
    unfolding toFraction_def Let_def by (simp add: frac_eval num_eval out_eval)
  have b: "toFraction (lit (98 / 100)) = ''3/4''"
    unfolding toFraction_def Let_def by (simp add: frac_eval num_eval out_eval)
  from a b show ?thesis by blast
qed

section \<open>The parser on the documented examples\<close>

text \<open>
  C7. \<open>parseQuantity\<close> reads "1/2" as 0.5, "1 1/2" as 1.5 and "2 1/4" as 2.25; two
  spaces between the whole number and the fraction ("1  1/2") still give the mixed
  number 1.5; a trailing unit word does not disturb the number: "2 cups" is 2.
\<close>

theorem parseQuantity_examples:
  "parseQuantity ''1/2'' = Some (Num (1 / 2)) \<and>
   parseQuantity ''1 1/2'' = Some (Num (3 / 2)) \<and>
   parseQuantity ''2 1/4'' = Some (Num (9 / 4)) \<and>
   parseQuantity ''1  1/2'' = Some (Num (3 / 2)) \<and>
   parseQuantity ''2 cups'' = Some (Num 2)"
proof -
  have a: "parseQuantity ''1/2'' = Some (Num (1 / 2))"
    unfolding parseQuantity_def Let_def by (simp add: str_eval num_eval)
  have b: "parseQuantity ''1 1/2'' = Some (Num (3 / 2))"
    unfolding parseQuantity_def Let_def by (simp add: str_eval num_eval)
  have c: "parseQuantity ''2 1/4'' = Some (Num (9 / 4))"
    unfolding parseQuantity_def Let_def by (simp add: str_eval num_eval)
  have d: "parseQuantity ''1  1/2'' = Some (Num (3 / 2))"
    unfolding parseQuantity_def Let_def by (simp add: str_eval num_eval)
  have e: "parseQuantity ''2 cups'' = Some (Num 2)"
    unfolding parseQuantity_def Let_def by (simp add: str_eval num_eval)
  from a b c d e show ?thesis by blast
qed

section \<open>Scaling a recipe\<close>

text \<open>
  C8. \<open>scaleRecipeServings\<close> sets \<open>servings\<close> to the target, replaces every ingredient
  by \<open>scaleIngredient\<close> of it from the recipe's own \<open>servings\<close> to the target, and leaves
  \<open>name\<close>, \<open>prepTime\<close>, \<open>cookTime\<close>, \<open>instructions\<close>, \<open>nutrition\<close> and \<open>source\<close> as
  they were.
\<close>

theorem scaleRecipeServings_frame:
  "servings (scaleRecipeServings r t) = t \<and>
   ingredients (scaleRecipeServings r t) =
     map (\<lambda>i. scaleIngredient i (servings r) t) (ingredients r) \<and>
   recipe.name (scaleRecipeServings r t) = recipe.name r \<and>
   prepTime (scaleRecipeServings r t) = prepTime r \<and>
   cookTime (scaleRecipeServings r t) = cookTime r \<and>
   instructions (scaleRecipeServings r t) = instructions r \<and>
   nutrition (scaleRecipeServings r t) = nutrition r \<and>
   source (scaleRecipeServings r t) = source r"
  by (simp add: scaleRecipeServings_def)

section \<open>Scaling to the same number of servings\<close>

text \<open>
  C6. The claim: scaling from \<open>n\<close> servings to \<open>n\<close> servings gives back a quantity
  numerically equivalent to the original. With \<open>"1/2 cup"\<close> and \<open>n = 2\<close> the code returns
  \<open>"1 cup"\<close>: the scaled amount is still 0.5, and the renderer prints 0.5 as "1" (the
  defect of C1). The result reads back as 1, twice the original 0.5.
\<close>

theorem scaleIngredient_same_servings:
  "quantity (scaleIngredient \<lparr>quantity = ''1/2 cup'', name = ''sugar'', notes = None\<rparr>
     (lit 2) (lit 2)) = ''1 cup'' \<and>
   parseQuantity ''1/2 cup'' = Some (Num (1 / 2)) \<and>
   parseQuantity ''1 cup'' = Some (Num 1)"
proof -
  have a: "quantity (scaleIngredient \<lparr>quantity = ''1/2 cup'', name = ''sugar'', notes = None\<rparr>
     (lit 2) (lit 2)) = ''1 cup''"
    unfolding scaleIngredient_def toFraction_def parseQuantity_def Let_def
    by (simp add: str_eval frac_eval num_eval out_eval)
  have b: "parseQuantity ''1/2 cup'' = Some (Num (1 / 2))"
    unfolding parseQuantity_def Let_def by (simp add: str_eval num_eval)
  have c: "parseQuantity ''1 cup'' = Some (Num 1)"
    unfolding parseQuantity_def Let_def by (simp add: str_eval num_eval)
  from a b c show ?thesis by blast
qed


section \<open>Non-scalable quantities\<close>

lemma starts_with_iff: "starts_with s t \<longleftrightarrow> (\<exists>b. s = t @ b)"
  by (induction s t rule: starts_with.induct) auto

lemma includes_js_iff: "includes_js s t \<longleftrightarrow> (\<exists>a b. s = a @ t @ b)"
proof (induction s)
  case Nil
  then show ?case by (auto simp: starts_with_iff)
next
  case (Cons d s)
  show ?case
  proof
    assume "includes_js (d # s) t"
    then consider "starts_with (d # s) t" | "includes_js s t" by auto
    then show "\<exists>a b. d # s = a @ t @ b"
    proof cases
      case 1
      then obtain b where "d # s = t @ b" by (auto simp: starts_with_iff)
      then have "d # s = [] @ t @ b" by simp
      then show ?thesis by blast
    next
      case 2
      then obtain a b where "s = a @ t @ b" using Cons.IH by blast
      then have "d # s = (d # a) @ t @ b" by simp
      then show ?thesis by blast
    qed
  next
    assume "\<exists>a b. d # s = a @ t @ b"
    then obtain a b where ab: "d # s = a @ t @ b" by blast
    show "includes_js (d # s) t"
    proof (cases a)
      case Nil
      with ab have "starts_with (d # s) t" by (auto simp: starts_with_iff)
      then show ?thesis by simp
    next
      case (Cons e a')
      with ab have "s = a' @ t @ b" by simp
      then have "includes_js s t" using Cons.IH by blast
      then show ?thesis by simp
    qed
  qed
qed

lemma dropWhile_keeps:
  assumes "ys \<noteq> []" "\<not> P (hd ys)"
  shows "\<exists>xs'. dropWhile P (xs @ ys) = xs' @ ys"
proof (cases "\<forall>x \<in> set xs. P x")
  case True
  then have "dropWhile P (xs @ ys) = dropWhile P ys" by (simp add: dropWhile_append2)
  also have "\<dots> = ys" using assms by (cases ys) auto
  finally have "dropWhile P (xs @ ys) = [] @ ys" by simp
  then show ?thesis by blast
next
  case False
  then obtain x where "x \<in> set xs" "\<not> P x" by blast
  then have "dropWhile P (xs @ ys) = dropWhile P xs @ ys" by (rule dropWhile_append1)
  then show ?thesis by blast
qed

lemma trim_keeps:
  assumes "p \<noteq> []" "\<not> is_space (hd p)" "\<not> is_space (last p)"
  shows "\<exists>a' b'. trim (a @ p @ b) = a' @ p @ b'"
proof -
  from assms obtain a' where a': "dropWhile is_space (a @ p @ b) = a' @ p @ b"
    using dropWhile_keeps [of "p @ b" is_space a] by auto
  have "rev p @ rev a' \<noteq> []" "\<not> is_space (hd (rev p @ rev a'))"
    using assms by (simp_all add: hd_rev)
  then obtain c where c: "dropWhile is_space (rev b @ rev p @ rev a') = c @ rev p @ rev a'"
    using dropWhile_keeps [of "rev p @ rev a'" is_space "rev b"] by auto
  have "trim (a @ p @ b) = a' @ p @ rev c"
    by (simp add: trim_def a' c)
  then show ?thesis by blast
qed

lemma term_shape:
  assumes "p \<in> set nonScalableTerms"
  shows "p \<noteq> [] \<and> \<not> is_space (hd p) \<and> \<not> is_space (last p) \<and> toLowerCase p = p"
  using assms by (auto simp: nonScalableTerms_def is_space_def toLowerCase_def lower_char_def)

lemma includes_js_trimmed:
  assumes "p \<in> set nonScalableTerms" "includes_js q p"
  shows "includes_js (toLowerCase (trim q)) p"
proof -
  from assms(2) obtain a b where "q = a @ p @ b" by (auto simp: includes_js_iff)
  moreover from term_shape [OF assms(1)]
  have sh: "p \<noteq> []" "\<not> is_space (hd p)" "\<not> is_space (last p)" "toLowerCase p = p" by simp_all
  ultimately obtain a' b' where "trim q = a' @ p @ b'" using trim_keeps by blast
  then have "toLowerCase (trim q) = toLowerCase a' @ p @ toLowerCase b'"
    using sh(4) by (simp add: toLowerCase_def)
  then show ?thesis by (auto simp: includes_js_iff)
qed

lemma parseQuantity_non_scalable:
  assumes "p \<in> set nonScalableTerms" "includes_js (toLowerCase (trim s)) p"
  shows "parseQuantity s = None"
  using assms by (auto simp: parseQuantity_def Let_def list_ex_iff)

text \<open>
  C3. For every phrase \<open>p\<close> among "to taste", "pinch", "dash", "handful" and "splash":
  an ingredient whose quantity string contains \<open>p\<close> comes back from \<open>scaleIngredient\<close>
  unchanged (quantity, name and notes), whatever the two serving counts are; and
  \<open>parseQuantity\<close> answers \<open>null\<close> for every input whose trimmed, lower-cased form contains
  \<open>p\<close>, whatever else, digits included, the string holds.
\<close>

theorem non_scalable_unchanged:
  assumes "p \<in> set nonScalableTerms"
  shows "(includes_js (quantity ing) p \<longrightarrow> scaleIngredient ing fromServings toServings = ing) \<and>
         (includes_js (toLowerCase (trim s)) p \<longrightarrow> parseQuantity s = None)"
proof (intro conjI impI)
  assume "includes_js (quantity ing) p"
  then have "parseQuantity (quantity ing) = None"
    using assms includes_js_trimmed parseQuantity_non_scalable by blast
  then show "scaleIngredient ing fromServings toServings = ing"
    by (simp add: scaleIngredient_def)
next
  assume "includes_js (toLowerCase (trim s)) p"
  then show "parseQuantity s = None" using assms by (rule parseQuantity_non_scalable [rotated])
qed

theorem non_scalable_unchanged_witness:
  "''pinch'' \<in> set nonScalableTerms \<and>
   includes_js (quantity \<lparr>quantity = ''2 pinches'', name = ''salt'', notes = Some ''fine''\<rparr>) ''pinch'' \<and>
   scaleIngredient \<lparr>quantity = ''2 pinches'', name = ''salt'', notes = Some ''fine''\<rparr> (lit 2) (lit 6)
     = \<lparr>quantity = ''2 pinches'', name = ''salt'', notes = Some ''fine''\<rparr> \<and>
   includes_js (toLowerCase (trim '' 3 Pinch '')) ''pinch'' \<and>
   parseQuantity '' 3 Pinch '' = None"
proof -
  have m: "''pinch'' \<in> set nonScalableTerms" by (simp add: nonScalableTerms_def)
  have i: "includes_js (quantity \<lparr>quantity = ''2 pinches'', name = ''salt'', notes = Some ''fine''\<rparr>) ''pinch''"
    by simp
  have j: "includes_js (toLowerCase (trim '' 3 Pinch '')) ''pinch''"
    by (simp add: str_eval char_of_def bit_Suc_0_iff)
  from non_scalable_unchanged [OF m, of "\<lparr>quantity = ''2 pinches'', name = ''salt'', notes = Some ''fine''\<rparr>" "lit 2" "lit 6" "'' 3 Pinch ''"] m i j
  show ?thesis by simp
qed


section \<open>What the parser can return\<close>

lemma pow2_pos: "0 < pow2 e"
  by (simp add: pow2_def)

lemma round_even_nonneg: "0 \<le> m \<Longrightarrow> 0 \<le> round_even m"
  by (auto simp: round_even_def Let_def)

lemma rd_not_negative: "0 \<le> x \<Longrightarrow> not_negative (rd x)"
proof -
  assume x: "0 \<le> x"
  have "0 \<le> \<bar>x\<bar> / quantum \<bar>x\<bar>"
    using pow2_pos by (simp add: quantum_def less_imp_le)
  then have "0 \<le> round_even (\<bar>x\<bar> / quantum \<bar>x\<bar>)" by (rule round_even_nonneg)
  then have "0 \<le> of_int (round_even (\<bar>x\<bar> / quantum \<bar>x\<bar>)) * quantum \<bar>x\<bar>"
    using pow2_pos by (simp add: quantum_def less_imp_le)
  with x show ?thesis by (auto simp: rd_def Let_def sgn_if)
qed

lemma parseInt_not_negative: "not_negative (parseInt s)"
  by (simp add: parseInt_def Let_def rd_not_negative)

lemma parseFloat_not_negative: "not_negative (parseFloat s)"
  by (simp add: parseFloat_def Let_def rd_not_negative)

lemma jdiv_not_negative: "not_negative a \<Longrightarrow> not_negative b \<Longrightarrow> not_negative (jdiv a b)"
  by (cases a; cases b) (auto simp: inf_of_def rd_not_negative)

lemma jadd_not_negative: "not_negative a \<Longrightarrow> not_negative b \<Longrightarrow> not_negative (jadd a b)"
  by (cases a; cases b) (auto simp: rd_not_negative)

lemma parseQuantity_not_negative: "parseQuantity s = Some v \<Longrightarrow> not_negative v"
  by (auto simp: parseQuantity_def Let_def parseInt_not_negative parseFloat_not_negative
      jdiv_not_negative jadd_not_negative split: if_splits option.splits)

text \<open>
  C4. The claim: \<open>parseQuantity\<close> never throws and returns \<open>null\<close> or a finite number
  that is not negative. It never throws (the model is a total function), but a zero
  denominator gives a number that is not finite: "1/0" is \<open>Infinity\<close> and "0/0" is NaN.
\<close>

theorem parseQuantity_zero_denominator:
  "parseQuantity ''1/0'' = Some PosInf \<and> parseQuantity ''0/0'' = Some NaN"
proof -
  have a: "parseQuantity ''1/0'' = Some PosInf"
    unfolding parseQuantity_def Let_def by (simp add: str_eval num_eval)
  have b: "parseQuantity ''0/0'' = Some NaN"
    unfolding parseQuantity_def Let_def by (simp add: str_eval num_eval)
  from a b show ?thesis by blast
qed

text \<open>
  C4, as amended. For every input string \<open>parseQuantity\<close> returns \<open>null\<close>, NaN,
  \<open>Infinity\<close> or a finite number that is not negative; it never returns a negative number
  or \<open>-Infinity\<close>.
\<close>

theorem parseQuantity_total:
  "parseQuantity s = None \<or> parseQuantity s = Some NaN \<or> parseQuantity s = Some PosInf \<or>
   (\<exists>r. 0 \<le> r \<and> parseQuantity s = Some (Num r))"
proof (cases "parseQuantity s")
  case None
  then show ?thesis by simp
next
  case (Some v)
  then have "not_negative v" by (rule parseQuantity_not_negative)
  with Some show ?thesis by (cases v) auto
qed


section \<open>Rounding to a double\<close>

lemma pow2_powi: "pow2 e = 2 powi e"
  unfolding pow2_def power_int_def by (simp add: power_one_over)

lemma pow2_numeral: "pow2 (numeral k) = 2 ^ numeral k"
  by (simp add: pow2_def)

lemma pow2_add: "pow2 (a + b) = pow2 a * pow2 b"
  by (simp add: pow2_powi power_int_add)

lemma pow2_mono: "a \<le> b \<Longrightarrow> pow2 a \<le> pow2 b"
  by (simp add: pow2_powi power_int_increasing)

lemma pow2_less_cancel: "pow2 a < pow2 b \<Longrightarrow> a < b"
  using pow2_mono [of b a] by (cases "a < b") auto

lemma pow2_nat: "0 \<le> e \<Longrightarrow> pow2 e = 2 ^ nat e"
  by (simp add: pow2_def)

lemma binade_bounds:
  assumes "0 < x"
  shows "pow2 (binade x) \<le> x" and "x < pow2 (binade x + 1)"
proof -
  have "pow2 (binade x) \<le> x \<and> x < pow2 (binade x + 1)"
  proof (cases "1 \<le> x")
    case True
    define m where "m = \<lfloor>x\<rfloor>"
    have m: "0 < m" using True by (simp add: m_def)
    then have b1: "1 \<le> bitlen m" by (simp add: bitlen_alt_def)
    have e: "binade x = bitlen m - 1" using True by (simp add: binade_def m_def)
    from bitlen_bounds [OF m]
    have lo: "2 ^ nat (bitlen m - 1) \<le> m" and hi: "m < 2 ^ nat (bitlen m)" by simp_all
    have "(2::rat) ^ nat (bitlen m - 1) = of_int (2 ^ nat (bitlen m - 1))" by simp
    also have "\<dots> \<le> of_int m" using lo by (simp only: of_int_le_iff)
    also have "\<dots> \<le> x" by (simp add: m_def)
    finally have l: "pow2 (binade x) \<le> x" using b1 by (simp add: e pow2_nat)
    have "m + 1 \<le> 2 ^ nat (bitlen m)" using hi by simp
    then have "(of_int (m + 1) :: rat) \<le> of_int (2 ^ nat (bitlen m))"
      by (simp only: of_int_le_iff)
    moreover have "x < of_int (m + 1)" using floor_correct [of x] by (simp add: m_def)
    ultimately have "x < 2 ^ nat (bitlen m)" by simp
    then have "x < pow2 (binade x + 1)" using b1 by (simp add: e pow2_nat)
    with l show ?thesis by simp
  next
    case False
    define c where "c = \<lceil>1 / x\<rceil>"
    have x1: "1 < 1 / x" using False assms by simp
    then have c2: "2 \<le> c" unfolding c_def by (simp add: less_ceiling_iff[symmetric] ceiling_le_iff)
    define k where "k = bitlen (c - 1)"
    have c1: "0 < c - 1" using c2 by simp
    then have k1: "1 \<le> k" by (simp add: k_def bitlen_alt_def)
    have e: "binade x = - k" using False by (simp add: binade_def c_def k_def)
    from bitlen_bounds [OF c1]
    have lo: "2 ^ nat (k - 1) \<le> c - 1" and hi: "c - 1 < 2 ^ nat k" by (simp_all add: k_def)
    have "1 / x \<le> of_int c" by (simp add: c_def)
    also have "c \<le> 2 ^ nat k" using hi by simp
    then have "(of_int c :: rat) \<le> of_int (2 ^ nat k)" by (simp only: of_int_le_iff)
    finally have "1 / x \<le> 2 ^ nat k" by simp
    then have "1 / 2 ^ nat k \<le> x" using assms
      by (simp add: field_simps)
    then have l: "pow2 (binade x) \<le> x" using k1 by (simp add: e pow2_def)
    have "(of_int (2 ^ nat (k - 1)) :: rat) \<le> of_int (c - 1)" using lo by (simp only: of_int_le_iff)
    moreover have "of_int (c - 1) < 1 / x" unfolding c_def by (simp add: ceiling_correct)
    ultimately have "2 ^ nat (k - 1) < 1 / x" by simp
    then have u: "x < 1 / 2 ^ nat (k - 1)" using assms by (simp add: field_simps)
    have "pow2 (binade x + 1) = 1 / 2 ^ nat (k - 1)"
    proof (cases "k = 1")
      case True
      then show ?thesis by (simp add: e pow2_def)
    next
      case False
      then have "\<not> 0 \<le> 1 - k" "nat (- (1 - k)) = nat (k - 1)" using k1 by simp_all
      then show ?thesis by (simp add: e pow2_def)
    qed
    with u l show ?thesis by simp
  qed
  then show "pow2 (binade x) \<le> x" and "x < pow2 (binade x + 1)" by simp_all
qed

lemma binade_ge: "0 < x \<Longrightarrow> pow2 e \<le> x \<Longrightarrow> e \<le> binade x"
  using binade_bounds(2) [of x] pow2_less_cancel [of e "binade x + 1"] by simp

lemma binade_le: "0 < x \<Longrightarrow> x < pow2 (e + 1) \<Longrightarrow> binade x \<le> e"
  using binade_bounds(1) [of x] pow2_less_cancel [of "binade x" "e + 1"] by simp

lemma round_even_of_int: "round_even (of_int k) = k"
  by (simp add: round_even_def)

lemma round_even_ge: "of_int l \<le> m \<Longrightarrow> l \<le> round_even m"
proof -
  assume "of_int l \<le> m"
  then have "l \<le> \<lfloor>m\<rfloor>" by (simp add: le_floor_iff)
  then show ?thesis by (auto simp: round_even_def Let_def)
qed

lemma round_even_le: "m \<le> of_int u \<Longrightarrow> round_even m \<le> u"
proof -
  assume mu: "m \<le> of_int u"
  show ?thesis
  proof (cases "m = of_int u")
    case True
    then show ?thesis by (simp add: round_even_of_int)
  next
    case False
    with mu have "m < of_int u" by simp
    then have "\<lfloor>m\<rfloor> < u" by (simp add: floor_less_iff)
    then show ?thesis by (auto simp: round_even_def Let_def)
  qed
qed

lemma rd_minus: "rd (- x) = jneg (rd x)"
  by (auto simp: rd_def Let_def sgn_if)

lemma quantum_normal: "0 < x \<Longrightarrow> - 1022 \<le> binade x \<Longrightarrow> quantum x = pow2 (binade x - 52)"
  by (simp add: quantum_def max_def)

lemma rd_bounds:
  assumes "0 < x" "- 1022 \<le> binade x" "binade x < 1023"
  shows "\<exists>z. rd x = Num z \<and> pow2 (binade x) \<le> z \<and> z \<le> pow2 (binade x + 1)"
proof -
  define e where "e = binade x"
  define q where "q = pow2 (e - 52)"
  define r where "r = round_even (x / q)"
  have q: "0 < q" "quantum \<bar>x\<bar> = q"
    using assms by (simp_all add: q_def e_def pow2_pos quantum_normal)
  have "e = 52 + (e - 52)" "e + 1 = 53 + (e - 52)" by simp_all
  then have "pow2 e = pow2 52 * pow2 (e - 52)" "pow2 (e + 1) = pow2 53 * pow2 (e - 52)"
    using pow2_add by metis+
  then have pe: "pow2 e = 2 ^ 52 * q" "pow2 (e + 1) = 2 ^ 53 * q"
    by (simp_all add: pow2_numeral q_def)
  have "2 ^ 52 * q \<le> x" "x < 2 ^ 53 * q"
    using binade_bounds [OF assms(1)] pe by (simp_all add: e_def)
  then have "of_int (2 ^ 52) \<le> x / q" "x / q \<le> of_int (2 ^ 53)"
    using q(1) by (simp_all add: field_simps)
  then have "2 ^ 52 \<le> r" "r \<le> 2 ^ 53"
    unfolding r_def by (simp_all only: round_even_ge round_even_le)
  then have "(of_int (2 ^ 52) :: rat) \<le> of_int r" "(of_int r :: rat) \<le> of_int (2 ^ 53)"
    by (simp_all only: of_int_le_iff)
  then have lo: "pow2 e \<le> of_int r * q" and hi: "of_int r * q \<le> pow2 (e + 1)"
    using q(1) by (simp_all add: pe)
  have "pow2 (e + 1) \<le> pow2 1023" using assms(3) by (intro pow2_mono) (simp add: e_def)
  also have "\<dots> < 2 ^ 1024" by (simp add: pow2_def)
  finally have "\<not> 2 ^ 1024 \<le> of_int r * q" using hi by simp
  then have "rd x = Num (of_int r * q)"
    using assms(1) q(2) by (simp add: rd_def Let_def r_def)
  with lo hi show ?thesis by (simp add: e_def)
qed

lemma rd_exact:
  assumes "0 < x" "x = of_int k * quantum x" "x < 2 ^ 1024"
  shows "rd x = Num x"
proof -
  have "0 < quantum x" by (simp add: quantum_def pow2_def)
  then have "x / quantum x = of_int k" using assms(2) by (simp add: field_simps)
  then have "round_even (\<bar>x\<bar> / quantum \<bar>x\<bar>) = k" using assms(1) by (simp add: round_even_of_int)
  then show ?thesis using assms by (simp add: rd_def Let_def)
qed

lemma rd_of_nat:
  assumes "n \<le> 2 ^ 53"
  shows "rd (of_nat n) = Num (of_nat n)"
proof (cases "n = 0")
  case True
  then show ?thesis by (simp add: rd_def)
next
  case False
  define x :: rat where "x = of_nat n"
  define e where "e = binade x"
  have x: "0 < x" "1 \<le> x" using False by (simp_all add: x_def)
  have "pow2 0 \<le> x" using x by (simp add: pow2_def)
  then have e0: "0 \<le> e" unfolding e_def using x(1) by (intro binade_ge)
  have le: "x \<le> 2 ^ 53" using assms unfolding x_def
    by (metis of_nat_le_iff of_nat_numeral of_nat_power)
  then have "x < pow2 (53 + 1)" by (simp add: pow2_def)
  then have e53: "e \<le> 53" unfolding e_def using x(1) by (intro binade_le)
  have q: "quantum x = pow2 (e - 52)" using e0 x(1) by (simp add: quantum_normal e_def)
  have "\<exists>k. x = of_int k * pow2 (e - 52)"
  proof (cases "e = 53")
    case True
    then have "pow2 53 \<le> x" using binade_bounds(1) [OF x(1)] by (simp add: e_def)
    with le have "x = 2 ^ 53" by (simp add: pow2_def)
    then have "x = of_int (2 ^ 52) * pow2 (e - 52)" using True by (simp add: pow2_def)
    then show ?thesis by blast
  next
    case False
    with e53 have "e \<le> 52" by simp
    then have "pow2 (52 - e) * pow2 (e - 52) = 1" using pow2_add [of "52 - e" "e - 52"]
      by (simp add: pow2_def)
    moreover have "pow2 (52 - e) = of_int (2 ^ nat (52 - e))" using \<open>e \<le> 52\<close> by (simp add: pow2_def)
    ultimately have "x = of_int (int n * 2 ^ nat (52 - e)) * pow2 (e - 52)"
      by (simp add: x_def)
    then show ?thesis by blast
  qed
  then obtain k where "x = of_int k * quantum x" using q by auto
  moreover have "x < 2 ^ 1024" using le by (rule le_less_trans) simp
  ultimately have "rd x = Num x" using x(1) by (intro rd_exact)
  then show ?thesis by (simp add: x_def)
qed

lemma double_multiple:
  assumes "is_double x" "0 < x"
  shows "\<exists>k. x = of_int k * quantum x"
proof -
  from assms have "Num x = rd x" by (simp add: is_double_def)
  then have "x = of_int (round_even (x / quantum x)) * quantum x"
    using assms(2) by (auto simp: rd_def Let_def split: if_splits)
  then show ?thesis by blast
qed


section \<open>Digit strings\<close>

lemma digit_not_space: "is_digit c \<Longrightarrow> \<not> is_space c"
  by (auto simp: is_digit_def is_space_def)

lemma digit_not_alpha: "is_digit c \<Longrightarrow> \<not> is_alpha c"
  by (auto simp: is_digit_def is_alpha_def)

lemma digit_lower: "is_digit c \<Longrightarrow> lower_char c = c"
  by (auto simp: is_digit_def lower_char_def)

lemma digit_char_props:
  assumes "d < 10"
  shows "is_digit (digit_char d)" and "digit_val (digit_char d) = d"
proof -
  from assms have "d \<in> {0, 1, 2, 3, 4, 5, 6, 7, 8, 9}" by auto
  then show "is_digit (digit_char d)" and "digit_val (digit_char d) = d"
    by (auto simp: digit_char_def is_digit_def digit_val_def)
qed

lemma decimal_digits_shape: "decimal_digits n \<noteq> [] \<and> list_all is_digit (decimal_digits n)"
proof (induction n rule: decimal_digits.induct)
  case (1 n)
  show ?case
  proof (cases "n < 10")
    case True
    then show ?thesis by (subst (1 2) decimal_digits.simps) (simp add: digit_char_props)
  next
    case False
    then have "list_all is_digit (decimal_digits (n div 10))" using 1 by simp
    moreover have "is_digit (digit_char (n mod 10))" by (simp add: digit_char_props)
    ultimately show ?thesis using False by (subst (1 2) decimal_digits.simps) simp
  qed
qed

lemma dec_snoc: "dec (s @ [c]) = 10 * dec s + digit_val c"
  by (simp add: dec_def)

lemma dec_decimal_digits: "dec (decimal_digits n) = n"
proof (induction n rule: decimal_digits.induct)
  case (1 n)
  show ?case
  proof (cases "n < 10")
    case True
    then show ?thesis by (subst decimal_digits.simps) (simp add: dec_def digit_char_props)
  next
    case False
    then have "dec (decimal_digits (n div 10)) = n div 10" using 1 by simp
    then show ?thesis using False
      by (subst decimal_digits.simps) (simp add: dec_snoc digit_char_props)
  qed
qed

section \<open>The patterns on the strings of the claims\<close>

lemma greedy_Some:
  "greedy f lo hi = Some r \<Longrightarrow> \<exists>k. lo \<le> k \<and> k \<le> hi \<and> f k = Some r"
proof (induction hi)
  case 0
  then show ?case by (auto split: if_splits)
next
  case (Suc hi)
  show ?case
  proof (cases "f (Suc hi)")
    case None
    with Suc.prems have "greedy f lo hi = Some r" by (auto split: if_splits)
    then obtain k where "lo \<le> k" "k \<le> hi" "f k = Some r" using Suc.IH by blast
    then show ?thesis by (intro exI [of _ k]) simp
  next
    case (Some r')
    with Suc.prems have "\<not> Suc hi < lo" "r' = r" by (auto split: if_splits)
    with Some show ?thesis by (intro exI [of _ "Suc hi"]) simp
  qed
qed

lemma match_here_literal:
  "One (Lit c) \<in> set re \<Longrightarrow> match_here re s = Some ps \<Longrightarrow> c \<in> set s"
proof (induction re arbitrary: s ps)
  case Nil
  then show ?case by simp
next
  case (Cons i re)
  from Cons.prems(2)
  have "greedy (\<lambda>k. map_option (\<lambda>ps. take k s # ps) (match_here re (drop k s)))
          (least i) (most i s) = Some ps" by simp
  from greedy_Some [OF this] obtain k where k: "least i \<le> k" "k \<le> most i s"
    and f: "map_option (\<lambda>ps. take k s # ps) (match_here re (drop k s)) = Some ps"
    by blast
  show ?case
  proof (cases "i = One (Lit c)")
    case True
    with k have "1 \<le> length (takeWhile (accepts (Lit c)) s)" by simp
    then have "takeWhile (accepts (Lit c)) s \<noteq> []" by auto
    then show ?thesis by (cases s) (auto split: if_splits)
  next
    case False
    with Cons.prems(1) have "One (Lit c) \<in> set re" by simp
    moreover from f obtain ps' where "match_here re (drop k s) = Some ps'" by auto
    ultimately have "c \<in> set (drop k s)" by (rule Cons.IH)
    then show ?thesis by (rule in_set_dropD)
  qed
qed

lemma match_js_literal:
  "One (Lit c) \<in> set re \<Longrightarrow> c \<notin> set s \<Longrightarrow> match_js re s = None"
proof (induction s)
  case Nil
  then show ?case using match_here_literal [of c re "[]"] by (cases "match_here re []") auto
next
  case (Cons d s)
  then have "match_here re (d # s) = None"
    using match_here_literal [of c re "d # s"] by (cases "match_here re (d # s)") auto
  with Cons show ?case by simp
qed

lemma takeWhile_run:
  assumes "list_all P ds" "rest = [] \<or> \<not> P (hd rest)"
  shows "takeWhile P (ds @ rest) = ds" and "dropWhile P (ds @ rest) = rest"
proof -
  from assms(2) have r: "takeWhile P rest = []" "dropWhile P rest = rest" by (cases rest; auto)+
  from assms(1) show "takeWhile P (ds @ rest) = ds" and "dropWhile P (ds @ rest) = rest"
    by (simp_all add: takeWhile_append2 dropWhile_append2 list_all_iff r)
qed

lemma match_number_digits:
  assumes "ds \<noteq> []" "list_all is_digit ds"
    and "rest = [] \<or> (\<not> is_digit (hd rest) \<and> hd rest \<noteq> CHR ''.'')"
  shows "match_js number_re (ds @ rest) = Some [ds, [], []]"
proof -
  have tw: "takeWhile (accepts Digit) (ds @ rest) = ds"
    using assms by (intro takeWhile_run(1)) (auto simp: list_all_iff)
  have dot: "takeWhile (accepts (Lit CHR ''.'')) rest = []" using assms(3) by (cases rest) auto
  have dig: "takeWhile (accepts Digit) rest = []" using assms(3) by (cases rest) auto
  obtain k where k: "length ds = Suc k" using assms(1) by (cases ds) auto
  have tail: "match_here [Opt (Lit CHR ''.''), Star Digit] rest = Some [[], []]"
    by (simp add: dot dig)
  define f where "f = (\<lambda>k. map_option (\<lambda>ps. take k (ds @ rest) # ps)
    (match_here [Opt (Lit CHR ''.''), Star Digit] (drop k (ds @ rest))))"
  have mh: "match_here number_re (ds @ rest) = greedy f 1 (length ds)"
    unfolding number_re_def f_def by (simp only: match_here.simps least.simps most.simps tw)
  have "f (Suc k) = Some [ds, [], []]"
    unfolding f_def k [symmetric] by (simp del: match_here.simps add: tail)
  then have "greedy f 1 (length ds) = Some [ds, [], []]"
    unfolding k by simp
  with mh have "match_here number_re (ds @ rest) = Some [ds, [], []]" by simp
  then show ?thesis using assms(1) by (cases ds) auto
qed


section \<open>Parsing a whole number\<close>

lemma trim_id:
  assumes "s \<noteq> []" "\<not> is_space (hd s)" "\<not> is_space (last s)"
  shows "trim s = s"
proof -
  from assms have "dropWhile is_space s = s" by (cases s) auto
  moreover from assms have "dropWhile is_space (rev s) = rev s"
    by (cases "rev s") (auto simp: last_rev [symmetric] hd_rev)
  ultimately show ?thesis by (simp add: trim_def)
qed

lemma digits_trim:
  assumes "ds \<noteq> []" "list_all is_digit ds"
  shows "trim ds = ds"
proof -
  from assms have "is_digit (hd ds)" "is_digit (last ds)" by (auto simp: list_all_iff)
  then show ?thesis using assms(1) by (intro trim_id) (auto dest: digit_not_space)
qed

lemma digits_lower: "list_all is_digit ds \<Longrightarrow> toLowerCase ds = ds"
  by (induction ds) (auto simp: toLowerCase_def digit_lower)

lemma term_head:
  assumes "p \<in> set nonScalableTerms"
  shows "p \<noteq> [] \<and> is_alpha (hd p)"
  using assms by (auto simp: nonScalableTerms_def is_alpha_def)

lemma includes_js_skip:
  assumes "p \<noteq> []" "hd p \<notin> set ds"
  shows "includes_js (ds @ s) p \<longleftrightarrow> includes_js s p"
  using assms
proof (induction ds)
  case Nil
  then show ?case by simp
next
  case (Cons d ds)
  then have "\<not> starts_with (d # ds @ s) p" by (cases p) auto
  with Cons show ?case by simp
qed

lemma digits_no_term:
  assumes "list_all is_digit ds" "p \<in> set nonScalableTerms"
  shows "\<not> includes_js ds p"
proof -
  from term_head [OF assms(2)] have p: "p \<noteq> []" "is_alpha (hd p)" by simp_all
  then have "hd p \<notin> set ds" using assms(1) by (auto simp: list_all_iff dest: digit_not_alpha)
  with p(1) have "includes_js (ds @ []) p \<longleftrightarrow> includes_js [] p" by (rule includes_js_skip)
  then show ?thesis using p(1) by (cases p) auto
qed

lemma parseFloat_digits:
  assumes "ds \<noteq> []" "list_all is_digit ds"
  shows "parseFloat ds = rd (of_nat (dec ds))"
proof -
  have tw: "takeWhile is_digit ds = ds" and dw: "dropWhile is_digit ds = []"
    using assms(2) by (simp_all add: list_all_iff)
  show ?thesis unfolding parseFloat_def Let_def tw dw using assms(1) by (simp add: dec_def)
qed

lemma digits_no_slash: "list_all is_digit ds \<Longrightarrow> CHR ''/'' \<notin> set ds"
  by (auto simp: list_all_iff is_digit_def)

lemma parseQuantity_digits:
  assumes "ds \<noteq> []" "list_all is_digit ds"
  shows "parseQuantity ds = Some (rd (of_nat (dec ds)))"
proof -
  have t: "toLowerCase (trim ds) = ds" using assms by (simp add: digits_trim digits_lower)
  have n: "\<not> list_ex (\<lambda>term. includes_js ds term) nonScalableTerms"
    using assms(2) by (auto simp: list_ex_iff digits_no_term)
  have "CHR ''/'' \<notin> set ds" using assms(2) by (rule digits_no_slash)
  then have m: "match_js mixed_re ds = None" and f: "match_js fraction_re ds = None"
    by (simp_all add: match_js_literal mixed_re_def fraction_re_def)
  have "match_js number_re (ds @ []) = Some [ds, [], []]"
    using assms by (intro match_number_digits) simp_all
  then have d: "match_js number_re ds = Some [ds, [], []]" by simp
  show ?thesis
    unfolding parseQuantity_def Let_def t using n
    by (simp add: m f d parseFloat_digits assms)
qed

text \<open>
  C9. The claim: for every integer \<open>n \<ge> 0\<close>, parsing the decimal string of \<open>n\<close> yields
  exactly \<open>n\<close>. The result is a double, and not every integer is one: the string
  "9007199254740993" (\<open>2 ^ 53 + 1\<close>) parses to 9007199254740992.
\<close>

theorem parseQuantity_beyond_2_53:
  "decimal_digits 9007199254740993 = ''9007199254740993'' \<and>
   parseQuantity ''9007199254740993'' = Some (Num 9007199254740992)"
proof -
  have a: "decimal_digits 9007199254740993 = ''9007199254740993''"
    by (simp add: decimal_digits.simps digit_char_def)
  have b: "parseQuantity ''9007199254740993'' = Some (Num 9007199254740992)"
    unfolding parseQuantity_def Let_def by (simp add: str_eval num_eval)
  from a b show ?thesis by blast
qed

text \<open>
  C9, as amended. For every integer \<open>n\<close> with \<open>0 \<le> n \<le> 2 ^ 53\<close>, parsing the decimal
  string of \<open>n\<close> yields exactly \<open>n\<close>.
\<close>

theorem parseQuantity_integer:
  assumes "n \<le> 2 ^ 53"
  shows "parseQuantity (decimal_digits n) = Some (Num (of_nat n))"
proof -
  have "parseQuantity (decimal_digits n) = Some (rd (of_nat (dec (decimal_digits n))))"
    using decimal_digits_shape [of n] by (intro parseQuantity_digits) simp_all
  then show ?thesis using assms by (simp add: dec_decimal_digits rd_of_nat)
qed

theorem parseQuantity_integer_witness:
  "(12 :: nat) \<le> 2 ^ 53 \<and> decimal_digits 12 = ''12'' \<and> parseQuantity ''12'' = Some (Num 12)"
proof -
  have h: "(12 :: nat) \<le> 2 ^ 53" by simp
  have d: "decimal_digits 12 = ''12''" by (simp add: decimal_digits.simps digit_char_def)
  from parseQuantity_integer [OF h] h d show ?thesis by simp
qed


section \<open>Small amounts\<close>

lemma far_candidate:
  assumes "0 \<le> x" "x \<le> 1 / 8" "1 / 4 \<le> c" "c \<le> 3 / 4"
  shows "\<exists>z. jabs (jsub (Num x) (Num c)) = Num z \<and> 1 / 8 \<le> z"
proof -
  define w where "w = c - x"
  have w: "1 / 8 \<le> w" "w < 1" "0 < w" using assms by (simp_all add: w_def)
  have p3: "pow2 (- 3) = 1 / 8" and p0: "pow2 0 = 1" by (simp_all add: pow2_def)
  have lo: "- 3 \<le> binade w" using w by (intro binade_ge) (simp_all add: p3)
  have hi: "binade w \<le> - 1" using w by (intro binade_le) (simp_all add: p0)
  from rd_bounds [OF w(3)] lo hi obtain z where z: "rd w = Num z" "pow2 (binade w) \<le> z"
    by auto
  have "pow2 (- 3) \<le> pow2 (binade w)" using lo by (rule pow2_mono)
  with z(2) have "1 / 8 \<le> z" by (simp add: p3)
  moreover have "jsub (Num x) (Num c) = rd (- w)" by (simp add: jsub_def w_def)
  then have "jabs (jsub (Num x) (Num c)) = Num z"
    using z(1) \<open>1 / 8 \<le> z\<close> by (simp add: rd_minus)
  ultimately show ?thesis by blast
qed

lemma closer_keeps:
  assumes "0 \<le> x" "x \<le> 1 / 8" "1 / 4 \<le> c" "c \<le> 3 / 4"
  shows "closer (Num x) \<lparr>value = Num c, str = s\<rparr> (Num x, k) = (Num x, k)"
proof -
  from far_candidate [OF assms] obtain z
    where "jabs (jsub (Num x) (Num c)) = Num z" "1 / 8 \<le> z" by blast
  then show ?thesis using assms(2) by (simp add: closer_def)
qed

lemma closer_zero:
  assumes "is_double x"
  shows "closer (Num x) \<lparr>value = Num 0, str = s\<rparr> (Num x, k) = (Num x, k)"
  using assms by (simp add: closer_def jsub_def is_double_def)

lemma tolerance_value: "lit (1 / 20) = Num (3602879701896397 / 72057594037927936)"
  by (simp add: lit_def rd_eval)

lemma double_above_tolerance:
  assumes "is_double x" "1 / 20 \<le> x"
  shows "3602879701896397 / 72057594037927936 \<le> x"
proof -
  have x: "0 < x" using assms(2) by simp
  have p5: "pow2 (- 5) = 1 / 32" and p4: "pow2 (- 4) = 1 / 16" by (simp_all add: pow2_def)
  have lo: "- 5 \<le> binade x" using x assms(2) by (intro binade_ge) (simp_all add: p5)
  show ?thesis
  proof (cases "binade x = - 5")
    case True
    then have q: "quantum x = 1 / 2 ^ 57" by (simp add: quantum_def pow2_def)
    from double_multiple [OF assms(1) x] obtain k where k: "x = of_int k * quantum x" by blast
    then have xk: "x = of_int k / 2 ^ 57" by (simp add: q)
    with assms(2) have "(2 ^ 57 :: rat) \<le> of_int k * 20" by (simp add: field_simps)
    then have "(of_int (2 ^ 57) :: rat) \<le> of_int (k * 20)" by simp
    then have "2 ^ 57 \<le> k * 20" by (simp only: of_int_le_iff)
    then have "7205759403792794 \<le> k" by simp
    then have "(of_int 7205759403792794 :: rat) \<le> of_int k" by (simp only: of_int_le_iff)
    then show ?thesis by (simp add: xk field_simps)
  next
    case False
    with lo have "- 4 \<le> binade x" by simp
    then have "pow2 (- 4) \<le> pow2 (binade x)" by (rule pow2_mono)
    also have "\<dots> \<le> x" using x by (rule binade_bounds(1))
    finally show ?thesis by (simp add: pow2_def)
  qed
qed

lemma toFraction_small:
  assumes "is_double x" "1 / 20 \<le> x" "x \<le> 1 / 8"
  shows "toFraction (Num x) = ''''"
proof -
  have x0: "0 \<le> x" using assms(2) by simp
  have w: "jfloor (Num x) = Num 0" using assms by (simp add: floor_eq_iff)
  have fr: "jsub (Num x) (Num 0) = Num x" using assms(1) by (simp add: jsub_def is_double_def)
  have c0: "fractions ! 0 = \<lparr>value = Num 0, str = ''''\<rparr>" by (simp add: fractions_eval)
  have fo: "fold (closer (Num x)) fractions (Num x, \<lparr>value = Num 0, str = ''''\<rparr>)
      = (Num x, \<lparr>value = Num 0, str = ''''\<rparr>)"
    unfolding fractions_eval using x0 assms
    by (simp add: closer_zero closer_keeps)
  have tol: "\<not> jlt (Num x) (lit (1 / 20))"
    using double_above_tolerance [OF assms(1,2)] by (simp add: tolerance_value)
  have z: "jeq (Num 0) (lit 0)" by (simp add: jeq_def lit_def rd_def)
  show ?thesis
    unfolding toFraction_def Let_def w fr c0
    using x0 by (simp add: fr fo tol z)
qed

lemma scale_to_tenth:
  "quantity (scaleIngredient \<lparr>quantity = ''1 cup'', name = n, notes = t\<rparr> (lit 10) (lit 1))
     = '' cup''"
  unfolding scaleIngredient_def toFraction_def parseQuantity_def Let_def
  by (simp add: str_eval frac_eval num_eval out_eval)

text \<open>
  C10. For every double \<open>x \<ge> 0\<close> with \<open>floor(x) = 0\<close> whose fractional part lies
  between 0.05 and 0.125, \<open>toFraction\<close> returns the empty string: the nearest candidate is 0,
  the distance is not below the tolerance, and the string of the candidate 0 is empty.
  So \<open>scaleIngredient\<close> can return a quantity that is only a space and the unit:
  "1 cup" scaled from 10 servings to 1 gives " cup".
\<close>

theorem toFraction_empty:
  "(is_double x \<and> 0 \<le> x \<and> \<lfloor>x\<rfloor> = 0 \<and> 5 / 100 \<le> x - of_int \<lfloor>x\<rfloor> \<and>
      x - of_int \<lfloor>x\<rfloor> \<le> 125 / 1000 \<longrightarrow> toFraction (Num x) = '''') \<and>
   quantity (scaleIngredient \<lparr>quantity = ''1 cup'', name = n, notes = t\<rparr> (lit 10) (lit 1))
     = '' cup''"
proof (intro conjI impI)
  assume "is_double x \<and> 0 \<le> x \<and> \<lfloor>x\<rfloor> = 0 \<and> 5 / 100 \<le> x - of_int \<lfloor>x\<rfloor> \<and>
      x - of_int \<lfloor>x\<rfloor> \<le> 125 / 1000"
  then have "is_double x" "1 / 20 \<le> x" "x \<le> 1 / 8" by simp_all
  then show "toFraction (Num x) = ''''" by (rule toFraction_small)
next
  show "quantity (scaleIngredient \<lparr>quantity = ''1 cup'', name = n, notes = t\<rparr> (lit 10) (lit 1))
     = '' cup''" by (rule scale_to_tenth)
qed

theorem toFraction_empty_witness:
  "is_double (1 / 8) \<and> (0 :: rat) \<le> 1 / 8 \<and> \<lfloor>1 / 8 :: rat\<rfloor> = 0 \<and>
   (5 / 100 :: rat) \<le> 1 / 8 - of_int \<lfloor>1 / 8 :: rat\<rfloor> \<and>
   (1 / 8 :: rat) - of_int \<lfloor>1 / 8 :: rat\<rfloor> \<le> 125 / 1000 \<and>
   toFraction (Num (1 / 8)) = ''''"
proof -
  have d: "is_double (1 / 8)" by (simp add: is_double_def rd_eval)
  from toFraction_empty [of "1 / 8"] d show ?thesis by simp
qed


section \<open>Scaling up and back down\<close>

lemma alpha_not_space: "is_alpha c \<Longrightarrow> \<not> is_space c"
  by (auto simp: is_alpha_def is_space_def)

lemma alpha_lower_not_slash: "is_alpha c \<Longrightarrow> lower_char c \<noteq> CHR ''/''"
  by (auto simp: is_alpha_def lower_char_def char_of_def bit_Suc_0_iff)

lemma match_unit:
  assumes "list_all (\<lambda>c. \<not> is_alpha c) pre" "u \<noteq> []" "list_all is_alpha u"
  shows "match_js unit_re (pre @ u) = Some [u]"
  using assms(1)
proof (induction pre)
  case Nil
  obtain k where k: "length u = Suc k" using assms(2) by (cases u) auto
  have tw: "takeWhile (accepts Alpha) u = u" using assms(3) by (simp add: list_all_iff)
  have "match_here unit_re u = Some [u]"
    unfolding unit_re_def by (simp add: tw k)
  then show ?case using assms(2) by (cases u) auto
next
  case (Cons c pre)
  then have "takeWhile (accepts Alpha) (c # pre @ u) = []" by simp
  then have "match_here unit_re (c # pre @ u) = None"
    unfolding unit_re_def by simp
  with Cons show ?case by simp
qed

lemma parseQuantity_amount_unit:
  assumes "ds \<noteq> []" "list_all is_digit ds" "u \<noteq> []" "list_all is_alpha u"
  shows "parseQuantity (ds @ CHR '' '' # u) =
    (if vague u then None else Some (rd (of_nat (dec ds))))"
proof -
  have "is_digit (hd ds)" "is_alpha (last u)" using assms by (auto simp: list_all_iff)
  then have "trim (ds @ CHR '' '' # u) = ds @ CHR '' '' # u"
    using assms(1,3) by (intro trim_id) (auto dest: digit_not_space alpha_not_space)
  then have t: "toLowerCase (trim (ds @ CHR '' '' # u)) = ds @ toLowerCase (CHR '' '' # u)"
    using digits_lower [OF assms(2)] by (simp add: toLowerCase_def)
  have sp: "lower_char CHR '' '' = CHR '' ''" by (simp add: lower_char_def)
  have n: "list_ex (\<lambda>term. includes_js (ds @ toLowerCase (CHR '' '' # u)) term) nonScalableTerms
      \<longleftrightarrow> vague u"
  proof -
    have "includes_js (ds @ toLowerCase (CHR '' '' # u)) p \<longleftrightarrow> includes_js (toLowerCase (CHR '' '' # u)) p"
      if "p \<in> set nonScalableTerms" for p
    proof -
      from term_head [OF that] have p: "p \<noteq> []" "is_alpha (hd p)" by simp_all
      then have "hd p \<notin> set ds" using assms(2) by (auto simp: list_all_iff dest: digit_not_alpha)
      with p(1) show ?thesis by (rule includes_js_skip)
    qed
    then show ?thesis by (auto simp: vague_def list_ex_iff)
  qed
  have "CHR ''/'' \<notin> set (ds @ toLowerCase (CHR '' '' # u))"
    using assms(2,4) digits_no_slash [OF assms(2)]
    by (auto simp: toLowerCase_def list_all_iff sp dest: alpha_lower_not_slash [symmetric])
  then have m: "match_js mixed_re (ds @ toLowerCase (CHR '' '' # u)) = None"
    and f: "match_js fraction_re (ds @ toLowerCase (CHR '' '' # u)) = None"
    by (simp_all add: match_js_literal mixed_re_def fraction_re_def)
  have "hd (toLowerCase (CHR '' '' # u)) = CHR '' ''" by (simp add: toLowerCase_def sp)
  then have d: "match_js number_re (ds @ toLowerCase (CHR '' '' # u)) = Some [ds, [], []]"
    using assms(1,2) by (intro match_number_digits) (simp_all add: is_digit_def)
  show ?thesis
    unfolding parseQuantity_def Let_def t n
    by (simp add: m f d parseFloat_digits assms)
qed

lemma unit_amount_unit:
  assumes "list_all is_digit ds" "u \<noteq> []" "list_all is_alpha u"
  shows "match_js unit_re (ds @ CHR '' '' # u) = Some [u]"
proof -
  have "\<not> is_alpha CHR '' ''" by (simp add: is_alpha_def)
  then have "list_all (\<lambda>c. \<not> is_alpha c) (ds @ [CHR '' ''])"
    using assms(1) by (auto simp: list_all_iff dest: digit_not_alpha)
  then have "match_js unit_re ((ds @ [CHR '' '']) @ u) = Some [u]"
    using assms(2,3) by (rule match_unit)
  then show ?thesis by simp
qed

lemma fold_at_zero:
  "fold (closer (Num 0)) fractions (Num 0, \<lparr>value = Num 0, str = ''''\<rparr>)
     = (Num 0, \<lparr>value = Num 0, str = ''''\<rparr>)"
  by (simp add: frac_eval jsub_def rd_eval)

lemma toFraction_whole:
  assumes "m < 2 ^ 53"
  shows "toFraction (Num (of_nat m)) = decimal_digits m"
proof -
  have w: "jfloor (Num (of_nat m)) = Num (of_nat m)" by simp
  have fr: "jsub (Num (of_nat m)) (Num (of_nat m)) = Num 0" by (simp add: jsub_def rd_def)
  have c0: "fractions ! 0 = \<lparr>value = Num 0, str = ''''\<rparr>" by (simp add: fractions_eval)
  have d0: "jabs (jsub (Num 0) (Num 0)) = Num 0" by (simp add: jsub_def rd_def)
  have tol: "jlt (Num 0) (lit (1 / 20))" by (simp add: tolerance_value)
  have z: "jeq (Num 0) (lit 0)" by (simp add: jeq_def lit_def rd_def)
  have "(of_nat m :: rat) < 2 ^ 53" using assms
    by (metis of_nat_less_iff of_nat_numeral of_nat_power)
  then have s: "toString (Num (of_nat m)) = decimal_digits m" by (simp add: toString_def)
  show ?thesis
    unfolding toFraction_def Let_def w fr c0
    by (simp add: d0 fold_at_zero tol z s)
qed

lemma scale_amount_unit:
  assumes "ds \<noteq> []" "list_all is_digit ds" "u \<noteq> []" "list_all is_alpha u" "\<not> vague u"
    and "quantity ing = ds @ CHR '' '' # u"
    and "jmul (rd (of_nat (dec ds))) (jdiv t f) = Num (of_nat m)" "m < 2 ^ 53"
  shows "scaleIngredient ing f t = ing\<lparr>quantity := decimal_digits m @ CHR '' '' # u\<rparr>"
  unfolding scaleIngredient_def Let_def
  using assms(3,5,7)
  by (simp add: assms(6) parseQuantity_amount_unit [OF assms(1-4)]
      unit_amount_unit [OF assms(2-4)] toFraction_whole [OF assms(8)])

lemma servings_ratio:
  "jdiv (lit 4) (lit 2) = Num 2" "jdiv (lit 2) (lit 4) = Num (1 / 2)"
  by (simp_all add: lit_def rd_eval)

text \<open>
  C5. The claim: for fraction-representable values, scaling from 2 to 4 servings and
  back from 4 to 2 returns the original rendered quantity, for example "1 cup" to
  "2 cups" and back to "1 cup". The unit is the first run of letters of the original
  string, copied as it is: "1 cup" scales to "2 cup", not to "2 cups".
\<close>

theorem scale_cup_not_plural:
  "quantity (scaleIngredient \<lparr>quantity = ''1 cup'', name = ''rice'', notes = None\<rparr> (lit 2) (lit 4))
     = ''2 cup'' \<and>
   quantity (scaleIngredient \<lparr>quantity = ''1 cup'', name = ''rice'', notes = None\<rparr> (lit 2) (lit 4))
     \<noteq> ''2 cups''"
proof -
  have "quantity (scaleIngredient \<lparr>quantity = ''1 cup'', name = ''rice'', notes = None\<rparr>
      (lit 2) (lit 4)) = ''2 cup''"
    unfolding scaleIngredient_def toFraction_def parseQuantity_def Let_def
    by (simp add: str_eval frac_eval num_eval out_eval)
  then show ?thesis by simp
qed

text \<open>
  C5, as amended. For a quantity made of a whole number \<open>n < 2 ^ 52\<close>, a space and a
  unit word of letters, scaling from 2 to 4 servings and then from 4 back to 2 returns
  the original ingredient; when the quantity is scalable the intermediate quantity is
  \<open>2 * n\<close> with the same unit word, so "1 cup" becomes "2 cup" and then "1 cup" again.
\<close>

theorem round_trip_whole:
  assumes "n < 2 ^ 52" "u \<noteq> []" "list_all is_alpha u"
    and "quantity ing = decimal_digits n @ '' '' @ u"
  shows "scaleIngredient (scaleIngredient ing (lit 2) (lit 4)) (lit 4) (lit 2) = ing \<and>
    (parseQuantity (quantity ing) \<noteq> None \<longrightarrow>
       quantity (scaleIngredient ing (lit 2) (lit 4)) = decimal_digits (2 * n) @ '' '' @ u)"
proof (cases "vague u")
  case True
  have q: "quantity ing = decimal_digits n @ CHR '' '' # u" using assms(4) by simp
  have "parseQuantity (quantity ing) = None"
    using decimal_digits_shape [of n] assms(2,3) True
    by (simp add: q parseQuantity_amount_unit)
  then show ?thesis by (simp add: scaleIngredient_def)
next
  case False
  have q: "quantity ing = decimal_digits n @ CHR '' '' # u" using assms(4) by simp
  have n2: "2 * n < 2 ^ 53" "n < 2 ^ 53" "n \<le> 2 ^ 53" "2 * n \<le> 2 ^ 53" using assms(1) by simp_all
  have "jmul (rd (of_nat (dec (decimal_digits n)))) (jdiv (lit 4) (lit 2)) = Num (of_nat (2 * n))"
    using rd_of_nat [OF n2(3)] rd_of_nat [OF n2(4)]
    by (simp add: dec_decimal_digits servings_ratio mult.commute)
  then have up: "scaleIngredient ing (lit 2) (lit 4)
      = ing\<lparr>quantity := decimal_digits (2 * n) @ CHR '' '' # u\<rparr>"
    using decimal_digits_shape [of n] assms(2,3) q False n2(1)
    by (intro scale_amount_unit) simp_all
  have "jmul (rd (of_nat (dec (decimal_digits (2 * n))))) (jdiv (lit 2) (lit 4)) = Num (of_nat n)"
    using rd_of_nat [OF n2(3)] rd_of_nat [OF n2(4)]
    by (simp add: dec_decimal_digits servings_ratio)
  then have "scaleIngredient (ing\<lparr>quantity := decimal_digits (2 * n) @ CHR '' '' # u\<rparr>) (lit 4) (lit 2)
      = ing\<lparr>quantity := decimal_digits (2 * n) @ CHR '' '' # u\<rparr>\<lparr>quantity := decimal_digits n @ CHR '' '' # u\<rparr>"
    using decimal_digits_shape [of "2 * n"] assms(2,3) False n2(2)
    by (intro scale_amount_unit) simp_all
  also have "\<dots> = ing" using q by simp
  finally show ?thesis using up by simp
qed

theorem round_trip_whole_witness:
  "(1 :: nat) < 2 ^ 52 \<and> ''cup'' \<noteq> [] \<and> list_all is_alpha ''cup'' \<and>
   quantity \<lparr>quantity = ''1 cup'', name = ''rice'', notes = None\<rparr> = decimal_digits 1 @ '' '' @ ''cup'' \<and>
   parseQuantity ''1 cup'' \<noteq> None \<and>
   scaleIngredient \<lparr>quantity = ''1 cup'', name = ''rice'', notes = None\<rparr> (lit 2) (lit 4)
     = \<lparr>quantity = ''2 cup'', name = ''rice'', notes = None\<rparr> \<and>
   scaleIngredient \<lparr>quantity = ''2 cup'', name = ''rice'', notes = None\<rparr> (lit 4) (lit 2)
     = \<lparr>quantity = ''1 cup'', name = ''rice'', notes = None\<rparr>"
proof -
  have h1: "(1 :: nat) < 2 ^ 52" by simp
  have h2: "''cup'' \<noteq> []" by simp
  have h3: "list_all is_alpha ''cup''" by (simp add: is_alpha_def)
  have d1: "decimal_digits (Suc 0) = ''1''" and d2: "decimal_digits 2 = ''2''"
    by (simp_all add: decimal_digits.simps digit_char_def)
  have h4: "quantity \<lparr>quantity = ''1 cup'', name = ''rice'', notes = None\<rparr>
      = decimal_digits 1 @ '' '' @ ''cup''" by (simp add: d1)
  have p: "parseQuantity ''1 cup'' \<noteq> None"
    unfolding parseQuantity_def Let_def by (simp add: str_eval num_eval)
  from round_trip_whole [OF h1 h2 h3 h4] p
  have "scaleIngredient (scaleIngredient \<lparr>quantity = ''1 cup'', name = ''rice'', notes = None\<rparr>
          (lit 2) (lit 4)) (lit 4) (lit 2) = \<lparr>quantity = ''1 cup'', name = ''rice'', notes = None\<rparr>"
    and q: "quantity (scaleIngredient \<lparr>quantity = ''1 cup'', name = ''rice'', notes = None\<rparr>
          (lit 2) (lit 4)) = ''2 cup''"
    by (simp_all add: d2)
  moreover have "scaleIngredient \<lparr>quantity = ''1 cup'', name = ''rice'', notes = None\<rparr> (lit 2) (lit 4)
     = \<lparr>quantity = ''2 cup'', name = ''rice'', notes = None\<rparr>"
    using q by (simp add: scaleIngredient_def Let_def split: option.splits)
  ultimately show ?thesis using h1 h2 h3 h4 p by simp
qed

end
